theory Spec2Isabelle
  imports Complex_Main "HOL-Library.Word"
begin

section \<open>Arithmetic of float64\<close>

text \<open>
  The volume computations of \<^verbatim>\<open>cmd/audmon.go\<close> are carried out on Go's \<^verbatim>\<open>float64\<close>, the IEEE 754
  binary64 format: every arithmetic operation yields the exact real result rounded to the nearest
  representable number, ties going to the neighbour with an even significand. A finite float64
  value is modelled by the real number it denotes, and every operation of the source by the exact
  operation followed by the rounding \<open>rnd\<close>.

  \<open>rhe\<close> rounds a real to the nearest integer, a tie to the even one. \<open>bexp x\<close> is the binary
  exponent of a non-zero \<open>x\<close> (\<open>2 powi bexp x \<le> \<bar>x\<bar> < 2 powi (bexp x + 1)\<close>). A binary64
  significand has 53 bits, so the spacing of the representable numbers around \<open>x\<close> is
  \<open>2 powi (bexp x - 52)\<close>; below the smallest normal number \<open>2 powi (- 1022)\<close> the spacing stays
  \<open>2 powi (- 1074)\<close> (subnormal numbers). Overflow to infinity and NaN are not represented: all
  quantities of the program have magnitude below 2 (bar lengths apart, which are small integers).
\<close>

definition rhe :: "real \<Rightarrow> int" where
  "rhe x = (let f = \<lfloor>x\<rfloor>; d = x - of_int f in
            if d < 1/2 then f else if d > 1/2 then f + 1 else if even f then f else f + 1)"

definition bexp :: "real \<Rightarrow> int" where
  "bexp x = \<lfloor>log 2 \<bar>x\<bar>\<rfloor>"

definition ulp_exp :: "real \<Rightarrow> int" where
  "ulp_exp x = max (bexp x) (-1022) - 52"

definition rnd :: "real \<Rightarrow> real" where
  "rnd x = (if x = 0 then 0 else of_int (rhe (x / 2 powi ulp_exp x)) * 2 powi ulp_exp x)"

text \<open>The reals that are float64 values are the fixed points of the rounding.\<close>

definition is_float64 :: "real \<Rightarrow> bool" where
  "is_float64 x \<longleftrightarrow> rnd x = x"

section \<open>The audio callback (cmd/audmon.go, Execute, the Data callback)\<close>

subsection \<open>Peak extraction\<close>

text \<open>
  The capture device delivers unsigned 8-bit samples (\<^verbatim>\<open>malgo.FormatU8\<close>), so a period is a
  list of bytes. The callback starts with \<^verbatim>\<open>var maxSample uint8 = 0\<close> and replaces it with
  every sample that is strictly larger:
  \<^verbatim>\<open>
  for _, sample := range pSample {
      if sample > maxSample { maxSample = sample }
  }
  \<close>
  The comparison is the unsigned one, which is the order of \<^typ>\<open>8 word\<close>.
\<close>

type_synonym uint8 = "8 word"

fun maxSample_loop :: "uint8 \<Rightarrow> uint8 list \<Rightarrow> uint8" where
  "maxSample_loop maxSample [] = maxSample"
| "maxSample_loop maxSample (sample # rest) =
     maxSample_loop (if sample > maxSample then sample else maxSample) rest"

definition peak :: "uint8 list \<Rightarrow> uint8" where
  "peak pSample = maxSample_loop 0 pSample"

subsection \<open>Volume scaling\<close>

text \<open>
  \<^verbatim>\<open>volume := math.Min(math.Pow(float64(maxSample)/235, 2), 1)\<close>

  The conversion of a byte to float64 and the constant 235 are exact; the division rounds once.
  \<^verbatim>\<open>math.Pow\<close> belongs to Go's standard library. For the exponent 2 it squares the significand
  of its argument with one multiplication and rescales the product by a power of two, which is the
  exact square rounded once (for the arguments met here, between 1/235 and 255/235, no underflow
  or overflow occurs); the arguments 0 and 1 are returned as they are, in agreement with
  \<open>rnd (0 * 0) = 0\<close> and \<open>rnd (1 * 1) = 1\<close>. \<^verbatim>\<open>math.Min\<close> of two finite numbers is their minimum.
\<close>

definition Pow_2 :: "real \<Rightarrow> real" where
  "Pow_2 x = rnd (x * x)"

definition volume :: "uint8 \<Rightarrow> real" where
  "volume maxSample = min (Pow_2 (rnd (real (unat maxSample) / 235))) 1"

subsection \<open>Throttling of the displayed volume\<close>

text \<open>
  \<^verbatim>\<open>
  volumeDisplayed := volume
  if volumeDisplayed > prevVolumeDisplayed {
      if volumeDisplayed-prevVolumeDisplayed > 0.05 {
          volumeDisplayed = prevVolumeDisplayed + 0.05
      }
  } else if prevVolumeDisplayed-volumeDisplayed > 0.05 {
      volumeDisplayed = prevVolumeDisplayed - 0.05
  }
  prevVolumeDisplayed = volumeDisplayed
  \<close>
  The literal \<^verbatim>\<open>0.05\<close> is converted to float64, that is, rounded: \<open>step_size\<close> is the float64
  nearest to 1/20, slightly above it. Differences and sums are rounded as well.
\<close>

definition step_size :: real where
  "step_size = rnd (1 / 20)"

definition volumeDisplayed :: "real \<Rightarrow> real \<Rightarrow> real" where
  "volumeDisplayed prevVolumeDisplayed vol =
     (if vol > prevVolumeDisplayed then
        (if rnd (vol - prevVolumeDisplayed) > step_size then rnd (prevVolumeDisplayed + step_size)
         else vol)
      else if rnd (prevVolumeDisplayed - vol) > step_size then rnd (prevVolumeDisplayed - step_size)
      else vol)"

text \<open>
  One invocation of the callback: the state carried from period to period is
  \<^verbatim>\<open>prevVolumeDisplayed\<close> (initially 0); the result is its new value, which is also the value
  handed to the queued user-interface update.
\<close>

definition Data :: "real \<Rightarrow> uint8 list \<Rightarrow> real" where
  "Data prevVolumeDisplayed pSample = volumeDisplayed prevVolumeDisplayed (volume (peak pSample))"

subsection \<open>The queued update of the bar\<close>


section \<open>The clipping indicator (cmd/audmon.go with recentClippingTracker)\<close>

text \<open>
  The version of \<^verbatim>\<open>cmd/audmon.go\<close> that colours the bar after clipping keeps
  \<^verbatim>\<open>
  type recentClippingTracker struct {
      ClippedRecently    bool
      cancelPendingReset func()
  }

  func (c *recentClippingTracker) IndicateClippingOccured() {
      if c.cancelPendingReset != nil { c.cancelPendingReset() }
      c.ClippedRecently = true
      cancelled := false
      c.cancelPendingReset = func() { cancelled = true }
      go func() {
          time.Sleep(volumeClipWarningDuration)
          if !cancelled { c.ClippedRecently = false }
      }()
  }
  \<close>
  and calls it from the Data callback when \<^verbatim>\<open>maxSample == 240\<close>.

  Every call allocates a fresh variable \<^verbatim>\<open>cancelled\<close>, captured by the closure stored in
  \<^verbatim>\<open>cancelPendingReset\<close> and by the goroutine. The model keeps these variables in a list
  (\<open>cancelled\<close>); a closure is the index of the variable it sets. A goroutine that is inside
  \<^verbatim>\<open>time.Sleep\<close> is a pair of the time at which its sleep is over and the index of its variable.
  Time is counted in nanoseconds, as \<^verbatim>\<open>time.Duration\<close> does. The call and the part of a goroutine
  after its sleep are taken as atomic steps. A sleep never returns early, and the scheduler lets
  a goroutine run at most \<open>lag\<close> nanoseconds after the end of its sleep (\<open>lag\<close> is a parameter, any
  number): \<open>quiet lag w0 w\<close> holds when \<open>w\<close> is reached from \<open>w0\<close> by the passing of time and by
  goroutines waking up at or after the end of their sleep, with no further call of the tracker,
  where time does not pass beyond the end of a sleep plus \<open>lag\<close> while the sleeping goroutine has
  not run.
\<close>

record recentClippingTracker =
  ClippedRecently :: bool
  cancelPendingReset :: "nat option"

record world =
  now :: nat
  tracker :: recentClippingTracker
  cancelled :: "bool list"
  sleeping :: "(nat \<times> nat) list"




definition wake :: "nat \<times> nat \<Rightarrow> world \<Rightarrow> world" where
  "wake g w =
     w\<lparr>tracker := (if \<not> cancelled w ! snd g then (tracker w)\<lparr>ClippedRecently := False\<rparr>
                     else tracker w),
       sleeping := remove1 g (sleeping w)\<rparr>"


inductive quiet :: "nat \<Rightarrow> world \<Rightarrow> world \<Rightarrow> bool" for lag :: nat and w0 :: world where
  quiet_refl: "quiet lag w0 w0"
| quiet_tick: "quiet lag w0 w \<Longrightarrow> \<forall>g \<in> set (sleeping w). now w + d \<le> fst g + lag \<Longrightarrow>
     quiet lag w0 (w\<lparr>now := now w + d\<rparr>)"
| quiet_wake: "quiet lag w0 w \<Longrightarrow> g \<in> set (sleeping w) \<Longrightarrow> fst g \<le> now w \<Longrightarrow>
     quiet lag w0 (wake g w)"

section \<open>Running and shutting down (cmd/audmon.go, the end of Execute)\<close>

text \<open>
  \<^verbatim>\<open>
  done := make(chan os.Signal, 1)
  signal.Notify(done, os.Interrupt, syscall.SIGINT, syscall.SIGTERM)
  go func() {
      if err := app.SetRoot(monitorBar, true).SetFocus((monitorBar)).Run(); err != nil {
          log.Printf("closed unsuccessfully: %v", err)
      }
      done <- syscall.SIGTERM
  }()
  if err = device.Start(); err != nil {
      log.Fatalf("failed to start audio capture device: %v", err)
  }
  <-done
  device.Uninit()
  app.Stop()
  os.Exit(0)
  \<close>
  Two threads of control share the channel \<^verbatim>\<open>done\<close> (capacity 1): the main goroutine and the
  goroutine that runs the user interface. The model is a step relation on the program counters of
  both, the content of the channel, the list of the calls made so far and the exit status. Its
  parameters say whether \<^verbatim>\<open>Run\<close> returns an error (\<open>runErr\<close>) and whether \<^verbatim>\<open>device.Start\<close> does
  (\<open>startErr\<close>). A signal of the operating system may arrive at any moment; the runtime puts it
  into the channel without blocking and drops it when the channel is full. A receive blocks on an
  empty channel and a send on a full one. \<^verbatim>\<open>log.Fatalf\<close> prints and exits with status 1. Nothing
  moves once the process has exited.
\<close>

datatype signal = SIGINT | SIGTERM

datatype action = DeviceStart | LogFatalf | LogPrintf | DeviceUninit | AppStop | OsExit nat
  | Notify signal

datatype main_pc = AtStart | AtReceive | AtUninit | AtStop | AtExit | Exited

datatype ui_pc = InRun | AtPrintf | AtSend | Returned

record process =
  main :: main_pc
  ui :: ui_pc
  done_chan :: "signal list"
  trace :: "action list"
  status :: "nat option"

definition launched :: process where
  "launched = \<lparr>main = AtStart, ui = InRun, done_chan = [], trace = [], status = None\<rparr>"

inductive step :: "bool \<Rightarrow> bool \<Rightarrow> process \<Rightarrow> process \<Rightarrow> bool"
  for runErr :: bool and startErr :: bool where
  start_ok: "status s = None \<Longrightarrow> main s = AtStart \<Longrightarrow> \<not> startErr \<Longrightarrow>
     step runErr startErr s (s\<lparr>main := AtReceive, trace := trace s @ [DeviceStart]\<rparr>)"
| start_err: "status s = None \<Longrightarrow> main s = AtStart \<Longrightarrow> startErr \<Longrightarrow>
     step runErr startErr s
       (s\<lparr>main := Exited, trace := trace s @ [DeviceStart, LogFatalf, OsExit 1], status := Some 1\<rparr>)"
| receive: "status s = None \<Longrightarrow> main s = AtReceive \<Longrightarrow> done_chan s = sg # rest \<Longrightarrow>
     step runErr startErr s (s\<lparr>main := AtUninit, done_chan := rest\<rparr>)"
| uninit: "status s = None \<Longrightarrow> main s = AtUninit \<Longrightarrow>
     step runErr startErr s (s\<lparr>main := AtStop, trace := trace s @ [DeviceUninit]\<rparr>)"
| stop: "status s = None \<Longrightarrow> main s = AtStop \<Longrightarrow>
     step runErr startErr s (s\<lparr>main := AtExit, trace := trace s @ [AppStop]\<rparr>)"
| exit: "status s = None \<Longrightarrow> main s = AtExit \<Longrightarrow>
     step runErr startErr s (s\<lparr>main := Exited, trace := trace s @ [OsExit 0], status := Some 0\<rparr>)"
| run_err: "status s = None \<Longrightarrow> ui s = InRun \<Longrightarrow> runErr \<Longrightarrow>
     step runErr startErr s (s\<lparr>ui := AtPrintf\<rparr>)"
| run_nil: "status s = None \<Longrightarrow> ui s = InRun \<Longrightarrow> \<not> runErr \<Longrightarrow>
     step runErr startErr s (s\<lparr>ui := AtSend\<rparr>)"
| printf: "status s = None \<Longrightarrow> ui s = AtPrintf \<Longrightarrow>
     step runErr startErr s (s\<lparr>ui := AtSend, trace := trace s @ [LogPrintf]\<rparr>)"
| send: "status s = None \<Longrightarrow> ui s = AtSend \<Longrightarrow> done_chan s = [] \<Longrightarrow>
     step runErr startErr s (s\<lparr>ui := Returned, done_chan := [SIGTERM]\<rparr>)"
| notify: "status s = None \<Longrightarrow>
     step runErr startErr s
       (s\<lparr>done_chan := (if done_chan s = [] then [sg] else done_chan s),
          trace := trace s @ [Notify sg]\<rparr>)"

inductive reach :: "bool \<Rightarrow> bool \<Rightarrow> process \<Rightarrow> process \<Rightarrow> bool"
  for runErr :: bool and startErr :: bool and s0 :: process where
  reach_refl: "reach runErr startErr s0 s0"
| reach_step: "reach runErr startErr s0 s \<Longrightarrow> step runErr startErr s s' \<Longrightarrow> reach runErr startErr s0 s'"

text \<open>
  The calls made by the main goroutine, as opposed to those of the user-interface goroutine and
  to the arrival of signals; the calls the main goroutine has made when it stands at a given
  point (after a successful start); a trace in which no signal arrived.
\<close>

fun by_main :: "action \<Rightarrow> bool" where
  "by_main LogPrintf = False"
| "by_main (Notify sg) = False"
| "by_main a = True"

fun main_actions :: "main_pc \<Rightarrow> action list" where
  "main_actions AtStart = []"
| "main_actions AtReceive = [DeviceStart]"
| "main_actions AtUninit = [DeviceStart]"
| "main_actions AtStop = [DeviceStart, DeviceUninit]"
| "main_actions AtExit = [DeviceStart, DeviceUninit, AppStop]"
| "main_actions Exited = [DeviceStart, DeviceUninit, AppStop, OsExit 0]"

definition quiet_trace :: "action list \<Rightarrow> bool" where
  "quiet_trace tr \<longleftrightarrow> (\<forall>sg. Notify sg \<notin> set tr)"

text \<open>Invariants of the reachable states and a measure of the steps left, used in the proofs.\<close>

definition main_inv :: "process \<Rightarrow> bool" where
  "main_inv s \<longleftrightarrow> filter by_main (trace s) = main_actions (main s)
     \<and> status s = (if main s = Exited then Some 0 else None)
     \<and> length (done_chan s) \<le> 1
     \<and> (ui s = Returned \<and> done_chan s = [] \<longrightarrow> main s \<noteq> AtStart \<and> main s \<noteq> AtReceive)"

definition logged_inv :: "process \<Rightarrow> bool" where
  "logged_inv s \<longleftrightarrow> (quiet_trace (trace s) \<longrightarrow>
     (if ui s = InRun \<or> ui s = AtPrintf then trace s = main_actions (main s)
      else trace s = LogPrintf # main_actions (main s)
         \<or> main s \<noteq> AtStart \<and> trace s = DeviceStart # LogPrintf # tl (main_actions (main s)))
     \<and> (if ui s = Returned
         then (if main s = AtStart \<or> main s = AtReceive then done_chan s = [SIGTERM]
               else done_chan s = [])
         else (main s = AtStart \<or> main s = AtReceive) \<and> done_chan s = []))"

fun main_rank :: "main_pc \<Rightarrow> nat" where
  "main_rank AtStart = 5"
| "main_rank AtReceive = 4"
| "main_rank AtUninit = 3"
| "main_rank AtStop = 2"
| "main_rank AtExit = 1"
| "main_rank Exited = 0"

fun ui_rank :: "ui_pc \<Rightarrow> nat" where
  "ui_rank InRun = 3"
| "ui_rank AtPrintf = 2"
| "ui_rank AtSend = 1"
| "ui_rank Returned = 0"

definition rank :: "process \<Rightarrow> nat" where
  "rank s = main_rank (main s) + ui_rank (ui s)"

section \<open>Properties of the rounding\<close>

lemma rhe_of_int: "rhe (of_int n) = n"
  by (simp add: rhe_def)

lemma rhe_err: "\<bar>of_int (rhe x) - x\<bar> \<le> 1/2"
  unfolding rhe_def Let_def by (auto simp: abs_le_iff)

lemma rhe_cases: "rhe x = \<lfloor>x\<rfloor> \<or> rhe x = \<lfloor>x\<rfloor> + 1"
  by (simp add: rhe_def Let_def)

lemma rhe_ge_floor: "\<lfloor>x\<rfloor> \<le> rhe x"
  using rhe_cases [of x] by auto

lemma rhe_le_floor1: "rhe x \<le> \<lfloor>x\<rfloor> + 1"
  using rhe_cases [of x] by auto

lemma rhe_mono:
  assumes "x \<le> y"
  shows "rhe x \<le> rhe y"
proof (cases "\<lfloor>x\<rfloor> = \<lfloor>y\<rfloor>")
  case True
  then show ?thesis
    using assms unfolding rhe_def Let_def by auto
next
  case False
  then have "\<lfloor>x\<rfloor> + 1 \<le> \<lfloor>y\<rfloor>"
    using floor_mono [OF assms] by linarith
  then show ?thesis
    using rhe_le_floor1 [of x] rhe_ge_floor [of y] by linarith
qed

lemma rhe_minus: "rhe (- x) = - rhe x"
proof (cases "x = of_int \<lfloor>x\<rfloor>")
  case True
  then obtain n where "x = of_int n" ..
  then have "rhe x = n" "rhe (- x) = - n"
    using rhe_of_int [of n] rhe_of_int [of "- n"] by simp_all
  then show ?thesis by simp
next
  case False
  then have fl: "\<lfloor>- x\<rfloor> = - \<lfloor>x\<rfloor> - 1"
    by (simp add: floor_minus ceiling_altdef)
  define f where "f = \<lfloor>x\<rfloor>"
  define d where "d = x - of_int f"
  have d': "- x - of_int (- f - 1) = 1 - d"
    by (simp add: d_def)
  have ev: "even (- f - 1) \<longleftrightarrow> odd f"
    by simp
  have l: "rhe x = (if d < 1/2 then f else if d > 1/2 then f + 1 else if even f then f else f + 1)"
    by (simp add: rhe_def Let_def f_def d_def)
  have r: "rhe (- x) = (if 1 - d < 1/2 then - f - 1 else if 1 - d > 1/2 then - f
       else if odd f then - f - 1 else - f)"
    unfolding rhe_def Let_def fl f_def [symmetric] d' ev by simp
  show ?thesis
    unfolding l r by (cases "d < 1/2"; cases "d > 1/2"; simp)
qed

lemma bexp_iff:
  assumes "x \<noteq> 0"
  shows "bexp x = k \<longleftrightarrow> 2 powi k \<le> \<bar>x\<bar> \<and> \<bar>x\<bar> < 2 powi (k + 1)"
proof -
  have "(2::real) powr real_of_int k = 2 powi k"
    by (rule powr_real_of_int') simp_all
  moreover have "(2::real) powr (real_of_int k + 1) = 2 powi (k + 1)"
    using powr_real_of_int' [of 2 "k + 1"] by simp
  ultimately show ?thesis
    using floor_log_eq_powr_iff [of "\<bar>x\<bar>" 2 k] assms by (simp add: bexp_def)
qed

lemma bexp_bounds:
  assumes "x \<noteq> 0"
  shows "2 powi bexp x \<le> \<bar>x\<bar>" and "\<bar>x\<bar> < 2 powi (bexp x + 1)"
  using bexp_iff [OF assms, of "bexp x"] by simp_all

lemma bexp_minus: "bexp (- x) = bexp x"
  by (simp add: bexp_def)

lemma ulp_exp_minus: "ulp_exp (- x) = ulp_exp x"
  by (simp add: ulp_exp_def bexp_minus)

lemma two_powi_less_iff: "(2::real) powi a < 2 powi b \<longleftrightarrow> a < b"
  by (metis linorder_not_less one_less_numeral_iff power_int_increasing power_int_strict_increasing
      semiring_norm(76) less_eq_real_def)

lemma two_powi_le_iff: "(2::real) powi a \<le> 2 powi b \<longleftrightarrow> a \<le> b"
  using two_powi_less_iff [of b a] by (simp add: not_less [symmetric])

lemma bexp_mono:
  assumes "x \<noteq> 0" "\<bar>x\<bar> \<le> \<bar>y\<bar>"
  shows "bexp x \<le> bexp y"
proof -
  have "y \<noteq> 0" using assms by auto
  then have "2 powi bexp x < (2::real) powi (bexp y + 1)"
    using bexp_bounds(1) [OF assms(1)] bexp_bounds(2) [of y] assms(2) by linarith
  then show ?thesis
    by (simp add: two_powi_less_iff)
qed

lemma bexp_less:
  assumes "x \<noteq> 0" "\<bar>x\<bar> < 2 powi k"
  shows "bexp x < k"
proof -
  have "2 powi bexp x < (2::real) powi k"
    using bexp_bounds(1) [OF assms(1)] assms(2) by linarith
  then show ?thesis
    by (simp add: two_powi_less_iff)
qed

lemma rnd_0: "rnd 0 = 0"
  by (simp add: rnd_def)

lemma rnd_minus: "rnd (- x) = - rnd x"
  by (simp add: rnd_def ulp_exp_minus rhe_minus)

lemma rhe_nonneg: "0 \<le> x \<Longrightarrow> 0 \<le> rhe x"
  using rhe_mono [of 0 x] rhe_of_int [of 0] by simp

lemma rnd_nonneg:
  assumes "0 \<le> x"
  shows "0 \<le> rnd x"
proof -
  have "0 \<le> x / 2 powi ulp_exp x"
    using assms by simp
  then have "0 \<le> rhe (x / 2 powi ulp_exp x)"
    by (rule rhe_nonneg)
  then show ?thesis
    by (simp add: rnd_def)
qed

lemma rnd_err: "\<bar>rnd x - x\<bar> \<le> 2 powi ulp_exp x / 2"
proof (cases "x = 0")
  case True
  then show ?thesis by (simp add: rnd_def)
next
  case False
  define u :: real where "u = 2 powi ulp_exp x"
  have u: "0 < u" by (simp add: u_def)
  have a: "\<bar>of_int (rhe (x / u)) - x / u\<bar> * u \<le> 1/2 * u"
    using rhe_err [of "x / u"] u by (intro mult_right_mono) simp_all
  have "(of_int (rhe (x / u)) - x / u) * u = of_int (rhe (x / u)) * u - x"
    using u by (simp add: field_simps)
  then have b: "\<bar>of_int (rhe (x / u)) - x / u\<bar> * u = \<bar>of_int (rhe (x / u)) * u - x\<bar>"
    using u by (metis abs_mult abs_of_pos)
  have "\<bar>of_int (rhe (x / u)) * u - x\<bar> \<le> u / 2"
    using a unfolding b by simp
  then show ?thesis
    using False by (simp add: rnd_def u_def)
qed

lemma two_powi_split:
  assumes "e \<le> k"
  shows "(2::real) powi k = 2 ^ nat (k - e) * 2 powi e"
proof -
  have "(2::real) powi k = 2 powi ((k - e) + e)"
    by simp
  also have "\<dots> = 2 powi (k - e) * 2 powi e"
    by (rule power_int_add) simp
  also have "(2::real) powi (k - e) = 2 ^ nat (k - e)"
    using assms by (simp add: power_int_def)
  finally show ?thesis .
qed

lemma grid_point:
  assumes "e \<le> k"
  shows "of_int m * (2::real) powi k = of_int (m * 2 ^ nat (k - e)) * 2 powi e"
  by (simp add: two_powi_split [OF assms])

lemma rnd_le_grid:
  assumes "x \<noteq> 0" "x \<le> of_int m * 2 powi k" "ulp_exp x \<le> k"
  shows "rnd x \<le> of_int m * 2 powi k"
proof -
  define u :: real where "u = 2 powi ulp_exp x"
  define M where "M = m * 2 ^ nat (k - ulp_exp x)"
  have u: "0 < u" by (simp add: u_def)
  have g: "of_int m * 2 powi k = of_int M * u"
    unfolding M_def u_def by (rule grid_point [OF assms(3)])
  have "x / u \<le> of_int M"
    using assms(2) u unfolding g by (simp add: field_simps)
  then have "rhe (x / u) \<le> M"
    using rhe_mono [of "x / u" "of_int M"] by (simp add: rhe_of_int)
  then have "of_int (rhe (x / u)) * u \<le> of_int M * u"
    using u by simp
  then show ?thesis
    using assms(1) unfolding g by (simp add: rnd_def u_def)
qed

lemma rnd_ge_grid:
  assumes "x \<noteq> 0" "of_int m * 2 powi k \<le> x" "ulp_exp x \<le> k"
  shows "of_int m * 2 powi k \<le> rnd x"
proof -
  have "rnd (- x) \<le> of_int (- m) * 2 powi k"
    using assms by (intro rnd_le_grid) (simp_all add: ulp_exp_minus)
  then show ?thesis
    by (simp add: rnd_minus)
qed

lemma rnd_repr:
  assumes "\<bar>m\<bar> < 2 ^ 53" "- 1074 \<le> k"
  shows "rnd (of_int m * 2 powi k) = of_int m * 2 powi k"
proof (cases "m = 0")
  case True
  then show ?thesis by (simp add: rnd_0)
next
  case False
  define x :: real where "x = of_int m * 2 powi k"
  have x0: "x \<noteq> 0"
    using False by (simp add: x_def)
  have "\<bar>x\<bar> = of_int \<bar>m\<bar> * 2 powi k"
    by (simp add: x_def abs_mult)
  also have "\<dots> < of_int (2 ^ 53) * 2 powi k"
    using assms(1) by (intro mult_strict_right_mono) (simp_all only: of_int_less_iff zero_less_power_int zero_less_numeral)
  also have "\<dots> = 2 powi (53 + k)"
    by (simp add: power_int_add)
  finally have "bexp x < 53 + k"
    using x0 by (intro bexp_less)
  then have e: "ulp_exp x \<le> k"
    using assms(2) by (simp add: ulp_exp_def)
  have "rnd x \<le> x" "x \<le> rnd x"
    using rnd_le_grid [OF x0 _ e, of m] rnd_ge_grid [OF x0 _ e, of m] by (simp_all add: x_def)
  then show ?thesis
    by (simp add: x_def)
qed

lemma rnd_of_int:
  assumes "\<bar>n\<bar> < 2 ^ 53"
  shows "rnd (of_int n) = of_int n"
  using rnd_repr [OF assms, of 0] by simp

lemma rnd_1: "rnd 1 = 1"
  using rnd_of_int [of 1] by simp

lemma rnd_mono_pos:
  assumes "0 < x" "x \<le> y"
  shows "rnd x \<le> rnd y"
proof -
  define ex where "ex = max (bexp x) (- 1022)"
  define ey where "ey = max (bexp y) (- 1022)"
  have x0: "x \<noteq> 0" and y0: "y \<noteq> 0" and ypos: "0 < y"
    using assms by auto
  have "bexp x \<le> bexp y"
    using assms by (intro bexp_mono) auto
  then have le: "ex \<le> ey"
    by (auto simp: ex_def ey_def)
  have ux: "ulp_exp x = ex - 52" and uy: "ulp_exp y = ey - 52"
    by (simp_all add: ulp_exp_def ex_def ey_def)
  show ?thesis
  proof (cases "ex = ey")
    case True
    define u :: real where "u = 2 powi (ex - 52)"
    have u: "0 < u" by (simp add: u_def)
    have "x / u \<le> y / u"
      using assms(2) u by (simp add: divide_right_mono)
    then have "rhe (x / u) \<le> rhe (y / u)"
      by (rule rhe_mono)
    then have "of_int (rhe (x / u)) * u \<le> of_int (rhe (y / u)) * u"
      using u by simp
    then show ?thesis
      using x0 y0 True by (simp add: rnd_def ux uy u_def)
  next
    case False
    then have lt: "ex + 1 \<le> ey"
      using le by simp
    then have ey: "ey = bexp y"
      by (auto simp: ex_def ey_def max_def split: if_splits)
    have "x < 2 powi (bexp x + 1)"
      using bexp_bounds(2) [OF x0] assms(1) by simp
    also have "\<dots> \<le> 2 powi (ex + 1)"
      by (simp add: two_powi_le_iff ex_def)
    finally have xle: "x \<le> of_int 1 * 2 powi (ex + 1)"
      by simp
    have "rnd x \<le> of_int 1 * 2 powi (ex + 1)"
      by (rule rnd_le_grid [OF x0 xle]) (simp add: ux)
    also have "\<dots> \<le> of_int 1 * 2 powi ey"
      using lt by (simp add: two_powi_le_iff)
    also have "\<dots> \<le> rnd y"
    proof (rule rnd_ge_grid [OF y0])
      show "of_int 1 * 2 powi ey \<le> y"
        using bexp_bounds(1) [OF y0] ypos by (simp add: ey)
      show "ulp_exp y \<le> ey"
        by (simp add: uy)
    qed
    finally show ?thesis .
  qed
qed

lemma rnd_mono:
  assumes "x \<le> y"
  shows "rnd x \<le> rnd y"
proof -
  consider "0 < x" | "x \<le> 0" "0 \<le> y" | "y < 0"
    by linarith
  then show ?thesis
  proof cases
    case 1
    then show ?thesis using assms by (rule rnd_mono_pos)
  next
    case 2
    have "rnd x \<le> 0"
      using rnd_nonneg [of "- x"] 2(1) by (simp add: rnd_minus)
    moreover have "0 \<le> rnd y"
      using 2(2) by (rule rnd_nonneg)
    ultimately show ?thesis by simp
  next
    case 3
    have "rnd (- y) \<le> rnd (- x)"
      using 3 assms by (intro rnd_mono_pos) simp_all
    then show ?thesis
      by (simp add: rnd_minus)
  qed
qed

lemma rnd_err_small:
  assumes "\<bar>x\<bar> < 2"
  shows "\<bar>rnd x - x\<bar> \<le> 1 / 2 ^ 53"
proof (cases "x = 0")
  case True
  then show ?thesis by (simp add: rnd_0)
next
  case False
  have "bexp x < 1"
    using False assms by (intro bexp_less) simp_all
  then have "ulp_exp x \<le> - 52"
    by (simp add: ulp_exp_def)
  then have "(2::real) powi ulp_exp x \<le> 2 powi (- 52)"
    by (simp only: two_powi_le_iff)
  also have "\<dots> = 1 / 2 ^ 52"
    by (simp add: power_int_minus_divide)
  finally have "(2::real) powi ulp_exp x / 2 \<le> 1 / 2 ^ 53"
    by simp
  then show ?thesis
    using rnd_err [of x] by linarith
qed

lemma rnd_eval:
  assumes "x \<noteq> 0" "2 powi e \<le> \<bar>x\<bar>" "\<bar>x\<bar> < 2 powi (e + 1)" "- 1022 \<le> e"
  shows "rnd x = of_int (rhe (x / 2 powi (e - 52))) * 2 powi (e - 52)"
proof -
  have "bexp x = e"
    using assms by (simp add: bexp_iff)
  then have "ulp_exp x = e - 52"
    using assms(4) by (simp add: ulp_exp_def)
  then show ?thesis
    using assms(1) by (simp add: rnd_def)
qed

lemma rnd_idem: "rnd (rnd x) = rnd x"
proof -
  have pos: "rnd (rnd x) = rnd x" if "0 < x" for x
  proof -
    define e where "e = max (bexp x) (- 1022)"
    define n where "n = rhe (x / 2 powi (e - 52))"
    have x0: "x \<noteq> 0" using that by simp
    have ue: "ulp_exp x = e - 52"
      by (simp add: ulp_exp_def e_def)
    have r: "rnd x = of_int n * 2 powi (e - 52)"
      using x0 by (simp add: rnd_def ue n_def)
    have "x < 2 powi (bexp x + 1)"
      using bexp_bounds(2) [OF x0] that by simp
    also have "\<dots> \<le> 2 powi (e + 1)"
      by (simp add: two_powi_le_iff e_def)
    also have "\<dots> = 2 ^ 53 * 2 powi (e - 52)"
      using two_powi_split [of "e - 52" "e + 1"] by simp
    finally have "x / 2 powi (e - 52) \<le> of_int (2 ^ 53)"
      by (simp add: field_simps)
    then have "n \<le> rhe (of_int (2 ^ 53))"
      unfolding n_def by (rule rhe_mono)
    then have n_le: "n \<le> 2 ^ 53"
      by (simp only: rhe_of_int)
    have n_ge: "0 \<le> n"
      unfolding n_def using that by (intro rhe_nonneg) simp
    show ?thesis
    proof (cases "n = 2 ^ 53")
      case True
      have "rnd x = of_int 1 * 2 powi (e + 1)"
        using two_powi_split [of "e - 52" "e + 1"] by (simp add: r True)
      moreover have "rnd (of_int 1 * 2 powi (e + 1)) = of_int 1 * 2 powi (e + 1)"
        by (rule rnd_repr) (simp_all add: e_def)
      ultimately show ?thesis by simp
    next
      case False
      then have "\<bar>n\<bar> < 2 ^ 53"
        using n_le n_ge by simp
      then have "rnd (of_int n * 2 powi (e - 52)) = of_int n * 2 powi (e - 52)"
        by (rule rnd_repr) (simp add: e_def)
      then show ?thesis
        by (simp add: r)
    qed
  qed
  consider "0 < x" | "x = 0" | "x < 0" by linarith
  then show ?thesis
  proof cases
    case 1
    then show ?thesis by (rule pos)
  next
    case 2
    then show ?thesis by (simp add: rnd_0)
  next
    case 3
    then have "rnd (rnd (- x)) = rnd (- x)"
      by (intro pos) simp
    then show ?thesis
      by (simp add: rnd_minus)
  qed
qed

text \<open>
  The result of the rounding is a float64 value (\<open>rnd_idem\<close>), and no float64 value is nearer
  to the argument; of two nearest values \<open>rhe\<close> selects the one with the even significand.
\<close>

lemma rhe_nearest: "\<bar>of_int (rhe t) - t\<bar> \<le> \<bar>of_int k - t\<bar>"
proof -
  define f where "f = \<lfloor>t\<rfloor>"
  define d where "d = t - of_int f"
  have d: "0 \<le> d" "d < 1"
    unfolding d_def f_def by linarith+
  have r: "\<bar>of_int (rhe t) - t\<bar> \<le> d \<and> \<bar>of_int (rhe t) - t\<bar> \<le> 1 - d"
    using d unfolding rhe_def Let_def f_def [symmetric] d_def [symmetric]
    by (auto simp: d_def abs_le_iff)
  show ?thesis
  proof (cases "k \<le> f")
    case True
    then have "of_int k \<le> (of_int f :: real)"
      by simp
    then have "d \<le> \<bar>of_int k - t\<bar>"
      unfolding d_def by linarith
    then show ?thesis
      using r by linarith
  next
    case False
    then have "f + 1 \<le> k"
      by simp
    then have "of_int f + 1 \<le> (of_int k :: real)"
      by (metis of_int_1 of_int_add of_int_le_iff)
    then have "1 - d \<le> \<bar>of_int k - t\<bar>"
      unfolding d_def by linarith
    then show ?thesis
      using r by linarith
  qed
qed

lemma rnd_nearest_grid:
  "\<bar>rnd x - x\<bar> \<le> \<bar>of_int k * 2 powi ulp_exp x - x\<bar>"
proof (cases "x = 0")
  case True
  then show ?thesis by (simp add: rnd_0)
next
  case False
  define u :: real where "u = 2 powi ulp_exp x"
  have u: "0 < u" by (simp add: u_def)
  have eq: "\<bar>of_int j * u - x\<bar> = \<bar>of_int j - x / u\<bar> * u" for j :: int
  proof -
    have "(of_int j - x / u) * u = of_int j * u - x"
      using u by (simp add: field_simps)
    then show ?thesis
      using u by (metis abs_mult abs_of_pos)
  qed
  have "\<bar>of_int (rhe (x / u)) - x / u\<bar> * u \<le> \<bar>of_int k - x / u\<bar> * u"
    using rhe_nearest [of "x / u" k] u by (intro mult_right_mono) simp_all
  then have "\<bar>of_int (rhe (x / u)) * u - x\<bar> \<le> \<bar>of_int k * u - x\<bar>"
    by (simp only: eq)
  then show ?thesis
    using False by (simp add: rnd_def u_def)
qed

lemma rnd_nearest:
  assumes "is_float64 y"
  shows "\<bar>rnd x - x\<bar> \<le> \<bar>y - x\<bar>"
proof (cases "x = 0")
  case True
  then show ?thesis by (simp add: rnd_0)
next
  case x0: False
  have "\<exists>k. \<bar>of_int k * 2 powi ulp_exp x - x\<bar> \<le> \<bar>y - x\<bar>"
  proof (cases "y = 0")
    case True
    have "\<bar>of_int 0 * 2 powi ulp_exp x - x\<bar> \<le> \<bar>y - x\<bar>"
      using True by simp
    then show ?thesis ..
  next
    case y0: False
    show ?thesis
    proof (cases "ulp_exp x \<le> ulp_exp y")
      case True
      have "y = of_int (rhe (y / 2 powi ulp_exp y)) * 2 powi ulp_exp y"
        using assms y0 by (simp add: is_float64_def rnd_def)
      also have "\<dots> = of_int (rhe (y / 2 powi ulp_exp y) * 2 ^ nat (ulp_exp y - ulp_exp x))
          * 2 powi ulp_exp x"
        by (rule grid_point [OF True])
      finally have "\<bar>of_int (rhe (y / 2 powi ulp_exp y) * 2 ^ nat (ulp_exp y - ulp_exp x))
          * 2 powi ulp_exp x - x\<bar> \<le> \<bar>y - x\<bar>"
        by simp
      then show ?thesis ..
    next
      case False
      then have b: "bexp y < bexp x" "- 1022 < bexp x"
        by (auto simp: ulp_exp_def max_def split: if_splits)
      define P :: real where "P = 2 powi bexp x"
      have "\<bar>y\<bar> < 2 powi (bexp y + 1)"
        using y0 by (rule bexp_bounds)
      also have "\<dots> \<le> P"
        unfolding P_def using b(1) by (simp add: two_powi_le_iff)
      finally have yP: "\<bar>y\<bar> < P" .
      have Px: "P \<le> \<bar>x\<bar>"
        unfolding P_def using x0 by (rule bexp_bounds)
      have ue: "ulp_exp x = bexp x - 52"
        using b(2) by (simp add: ulp_exp_def)
      have g: "of_int j * P = of_int (j * 2 ^ nat (bexp x - (bexp x - 52))) * 2 powi ulp_exp x"
        for j :: int
        unfolding P_def ue by (rule grid_point) simp
      show ?thesis
      proof (cases "0 < x")
        case True
        have "\<bar>of_int 1 * P - x\<bar> \<le> \<bar>y - x\<bar>"
          using True yP Px by simp
        then show ?thesis
          unfolding g by (rule exI)
      next
        case False
        have "\<bar>of_int (- 1) * P - x\<bar> \<le> \<bar>y - x\<bar>"
          using False yP Px by simp
        then show ?thesis
          unfolding g by (rule exI)
      qed
    qed
  qed
  then obtain k where "\<bar>of_int k * 2 powi ulp_exp x - x\<bar> \<le> \<bar>y - x\<bar>" ..
  then show ?thesis
    using rnd_nearest_grid [of x k] by linarith
qed

section \<open>Properties of the audio callback\<close>

subsection \<open>Peak extraction\<close>

lemma maxSample_loop_fold: "maxSample_loop m xs = fold max xs m"
proof (induction xs arbitrary: m)
  case Nil
  show ?case by simp
next
  case (Cons x xs)
  have "(if x > m then x else m) = max x m"
    by (auto simp: max_def)
  then show ?case
    using Cons.IH by simp
qed

lemma maxSample_loop_Max: "maxSample_loop m xs = Max (set (m # xs))"
  by (simp only: maxSample_loop_fold Max.set_eq_fold)

lemma peak_nonempty:
  assumes "pSample \<noteq> []"
  shows "peak pSample = Max (set pSample)"
proof -
  have "peak pSample = Max (insert 0 (set pSample))"
    by (simp add: peak_def maxSample_loop_Max)
  also have "\<dots> = max 0 (Max (set pSample))"
    using assms by simp
  also have "\<dots> = Max (set pSample)"
    by (simp add: max_def)
  finally show ?thesis .
qed

text \<open>
  Claim C3. For every non-empty sample buffer the peak extraction returns the maximum element of
  the buffer; for a buffer whose elements are all equal it returns that value, and for a
  single-element buffer it returns the element.
\<close>

theorem peak_is_max:
  "(pSample \<noteq> [] \<longrightarrow> peak pSample = Max (set pSample))
   \<and> peak (replicate (Suc n) v) = v
   \<and> peak [v] = v"
proof (intro conjI impI)
  show "peak pSample = Max (set pSample)" if "pSample \<noteq> []"
    using that by (rule peak_nonempty)
  have "peak (replicate (Suc n) v) = Max (set (replicate (Suc n) v))"
    by (rule peak_nonempty) simp
  moreover have "set (replicate (Suc n) v) = {v}"
    by auto
  ultimately show "peak (replicate (Suc n) v) = v"
    by (simp del: replicate_Suc)
  show "peak [v] = v"
    using peak_nonempty [of "[v]"] by simp
qed

theorem peak_is_max_witness:
  "[3, 200, 7 :: uint8] \<noteq> [] \<and> peak [3, 200, 7] = 200"
proof -
  have "peak [3, 200, 7 :: uint8] = Max (set [3, 200, 7])"
    using peak_is_max [of "[3, 200, 7]"] by simp
  then show ?thesis by simp
qed

subsection \<open>Scaling and throttling\<close>

lemma rnd_step: "rnd step_size = step_size"
  by (simp add: step_size_def rnd_idem)

lemma step_val: "step_size = 3602879701896397 / 2 ^ 56"
proof -
  have "rnd (1 / 20) = of_int (rhe ((1 / 20) / 2 powi (- 5 - 52))) * 2 powi (- 5 - 52)"
    by (rule rnd_eval) (simp_all add: power_int_minus_divide)
  moreover have "(1 / 20) / 2 powi (- 5 - 52) = (7205759403792793 + 3 / 5 :: real)"
    by (simp add: power_int_minus_divide)
  moreover have "rhe (7205759403792793 + 3 / 5) = 7205759403792794"
    by (simp add: rhe_def Let_def)
  ultimately show ?thesis
    by (simp add: step_size_def power_int_minus_divide)
qed

lemma step_bounds: "1 / 20 \<le> step_size" "step_size \<le> 1 / 16"
  by (simp_all add: step_val)

lemma rnd_gt_step: "step_size < rnd d \<Longrightarrow> step_size < d"
  using rnd_mono [of d step_size] by (auto simp: rnd_step not_less [symmetric])

lemma volume_range: "0 \<le> volume m \<and> volume m \<le> 1"
proof -
  have "0 \<le> Pow_2 (rnd (real (unat m) / 235))"
    unfolding Pow_2_def by (rule rnd_nonneg) simp
  then show ?thesis
    by (simp add: volume_def)
qed

lemma volumeDisplayed_range:
  assumes "0 \<le> p" "p \<le> 1" "0 \<le> v" "v \<le> 1"
  shows "0 \<le> volumeDisplayed p v \<and> volumeDisplayed p v \<le> 1"
proof -
  have up: "0 \<le> rnd (p + step_size) \<and> rnd (p + step_size) \<le> 1" if "step_size < rnd (v - p)"
  proof -
    have "p + step_size \<le> 1"
      using rnd_gt_step [OF that] assms by simp
    then have "rnd (p + step_size) \<le> 1"
      using rnd_mono [of "p + step_size" 1] by (simp add: rnd_1)
    moreover have "0 \<le> rnd (p + step_size)"
      using assms step_bounds by (intro rnd_nonneg) simp
    ultimately show ?thesis by simp
  qed
  have down: "0 \<le> rnd (p - step_size) \<and> rnd (p - step_size) \<le> 1" if "step_size < rnd (p - v)"
  proof -
    have "0 \<le> p - step_size"
      using rnd_gt_step [OF that] assms by simp
    then have "0 \<le> rnd (p - step_size)"
      by (rule rnd_nonneg)
    moreover have "rnd (p - step_size) \<le> 1"
      using rnd_mono [of "p - step_size" 1] assms step_bounds by (simp add: rnd_1)
    ultimately show ?thesis by simp
  qed
  show ?thesis
    using up down assms by (simp add: volumeDisplayed_def)
qed

lemma Data_range:
  assumes "0 \<le> p" "p \<le> 1"
  shows "0 \<le> Data p pSample \<and> Data p pSample \<le> 1"
  unfolding Data_def using assms volume_range by (intro volumeDisplayed_range) simp_all

lemma foldl_Data_range:
  assumes "0 \<le> p" "p \<le> 1"
  shows "0 \<le> foldl Data p periods \<and> foldl Data p periods \<le> 1"
  using assms
proof (induction periods arbitrary: p)
  case Nil
  then show ?case by simp
next
  case (Cons pSample periods)
  show ?case
    using Cons.IH [of "Data p pSample"] Data_range [OF Cons.prems] by simp
qed

text \<open>
  Claim C1. In every reachable state of the callback the raw volume and the displayed volume lie
  in the interval from 0 to 1: the scaled volume does so for every peak (every byte), one
  invocation of the callback keeps a previous displayed volume of that interval inside it, and so
  does every sequence of invocations that starts from the initial value 0.
\<close>

theorem volumes_in_unit_interval:
  "(\<forall>maxSample. 0 \<le> volume maxSample \<and> volume maxSample \<le> 1)
   \<and> (\<forall>prev pSample. 0 \<le> prev \<and> prev \<le> 1 \<longrightarrow> 0 \<le> Data prev pSample \<and> Data prev pSample \<le> 1)
   \<and> (\<forall>periods. 0 \<le> foldl Data 0 periods \<and> foldl Data 0 periods \<le> 1)"
  using volume_range Data_range foldl_Data_range [of 0] by simp

theorem volumes_in_unit_interval_witness:
  "(0::real) \<le> 1 / 2 \<and> (1 / 2 :: real) \<le> 1
   \<and> 0 \<le> Data (1 / 2) [3, 200, 7] \<and> Data (1 / 2) [3, 200, 7] \<le> 1
   \<and> 0 \<le> foldl Data 0 [[3, 200, 7], [], [255]] \<and> foldl Data 0 [[3, 200, 7], [], [255]] \<le> 1
   \<and> 0 \<le> volume 200 \<and> volume 200 \<le> 1"
  using volumes_in_unit_interval by simp

lemma is_float64_half: "is_float64 (1 / 2)"
  using rnd_repr [of 1 "- 1"] by (simp add: is_float64_def)

lemma is_float64_0: "is_float64 0"
  by (simp add: is_float64_def rnd_0)

lemma is_float64_1: "is_float64 1"
  by (simp add: is_float64_def rnd_1)

lemma volume_clip:
  assumes "235 \<le> maxSample"
  shows "volume maxSample = 1"
proof -
  define q where "q = rnd (real (unat maxSample) / 235)"
  have "235 \<le> unat maxSample"
    using assms by (simp add: word_le_nat_alt)
  then have "1 \<le> real (unat maxSample) / 235"
    by (simp del: of_nat_unat)
  then have q: "1 \<le> q"
    unfolding q_def using rnd_mono [of 1 "real (unat maxSample) / 235"] by (simp add: rnd_1)
  then have "1 * 1 \<le> q * q"
    by (intro mult_mono) simp_all
  then have "1 \<le> rnd (q * q)"
    using rnd_mono [of 1 "q * q"] by (simp add: rnd_1)
  then show ?thesis
    by (simp del: of_nat_unat add: volume_def Pow_2_def q_def [symmetric])
qed

lemma volume_zero: "volume 0 = 0"
  by (simp add: volume_def Pow_2_def rnd_0)

text \<open>
  Claim C4. A peak at or above the clip threshold 235 is scaled to exactly 1, and the peak 0 to
  exactly 0.
\<close>

theorem volume_clip_and_zero:
  "(\<forall>maxSample. 235 \<le> maxSample \<longrightarrow> volume maxSample = 1) \<and> volume 0 = 0"
  using volume_clip volume_zero by simp

theorem volume_clip_and_zero_witness:
  "(235::uint8) \<le> 240 \<and> volume 240 = 1 \<and> volume 235 = 1 \<and> volume 255 = 1"
  using volume_clip_and_zero by simp

text \<open>
  Claim C7. The scaling is monotonically non-decreasing: a peak that is not smaller gives a
  volume that is not smaller.
\<close>

theorem volume_mono:
  assumes "a \<le> b"
  shows "volume a \<le> volume b"
proof -
  define qa where "qa = rnd (real (unat a) / 235)"
  define qb where "qb = rnd (real (unat b) / 235)"
  have "unat a \<le> unat b"
    using assms by (simp add: word_le_nat_alt)
  then have "real (unat a) / 235 \<le> real (unat b) / 235"
    by (simp del: of_nat_unat add: divide_right_mono)
  then have le: "qa \<le> qb"
    unfolding qa_def qb_def by (rule rnd_mono)
  have nn: "0 \<le> qa"
    unfolding qa_def by (rule rnd_nonneg) (simp del: of_nat_unat)
  have "qa * qa \<le> qb * qb"
    using le nn by (intro mult_mono) simp_all
  then have "rnd (qa * qa) \<le> rnd (qb * qb)"
    by (rule rnd_mono)
  then show ?thesis
    by (simp del: of_nat_unat add: volume_def Pow_2_def qa_def [symmetric] qb_def [symmetric]
        min_le_iff_disj)
qed

theorem volume_mono_witness:
  "(100::uint8) \<le> 200 \<and> volume 100 \<le> volume 200"
  using volume_mono [of 100 200] by simp

text \<open>
  Claim C10. On an empty sample buffer the callback computes a result and nothing fails: the
  loop body never runs, the peak is 0, the raw volume is 0, and the displayed volume is the
  throttled move from the previous value towards 0.
\<close>

theorem empty_buffer_total:
  "peak [] = 0 \<and> volume (peak []) = 0 \<and> Data prev [] = volumeDisplayed prev 0"
  by (simp add: peak_def Data_def volume_zero)

theorem empty_buffer_total_witness:
  "peak [] = 0 \<and> volume (peak []) = 0 \<and> Data (1 / 2) [] = volumeDisplayed (1 / 2) 0"
  by (rule empty_buffer_total [of "1 / 2"])

lemma volumeDisplayed_up:
  assumes "p < r"
  shows "volumeDisplayed p r = (if step_size < rnd (r - p) then rnd (p + step_size) else r)"
  using assms by (simp add: volumeDisplayed_def)

lemma volumeDisplayed_down:
  assumes "r \<le> p"
  shows "volumeDisplayed p r = (if step_size < rnd (p - r) then rnd (p - step_size) else r)"
  using assms by (simp add: volumeDisplayed_def)

lemma volumeDisplayed_same: "volumeDisplayed p p = p"
  using step_bounds by (simp add: volumeDisplayed_def rnd_0)

lemma volumeDisplayed_minus: "volumeDisplayed (- p) (- r) = - volumeDisplayed p r"
proof -
  have a: "rnd (- p - step_size) = - rnd (p + step_size)" "rnd (step_size - p) = - rnd (p - step_size)"
    using rnd_minus [of "p + step_size"] rnd_minus [of "p - step_size"] by simp_all
  consider "p < r" | "r < p" | "r = p" by linarith
  then show ?thesis
  proof cases
    case 1
    then show ?thesis
      by (simp add: volumeDisplayed_def a)
  next
    case 2
    then show ?thesis
      by (simp add: volumeDisplayed_def a)
  next
    case 3
    then show ?thesis
      by (simp add: volumeDisplayed_same)
  qed
qed

lemma snap_gap:
  assumes "\<not> step_size < rnd d" "0 \<le> d" "d \<le> 1"
  shows "d \<le> step_size + 1 / 2 ^ 53"
proof -
  have "\<bar>rnd d - d\<bar> \<le> 1 / 2 ^ 53"
    using assms by (intro rnd_err_small) simp
  then show ?thesis
    using assms(1) by linarith
qed

lemma move_up:
  assumes "is_float64 p" "is_float64 r" "0 \<le> p" "r \<le> 1" "step_size < rnd (r - p)"
  shows "p \<le> rnd (p + step_size)" "rnd (p + step_size) \<le> r" "\<bar>rnd (p + step_size) - (p + step_size)\<bar> \<le> 1 / 2 ^ 53"
proof -
  have gap: "p + step_size \<le> r"
    using rnd_gt_step [OF assms(5)] by simp
  show "p \<le> rnd (p + step_size)"
    using rnd_mono [of p "p + step_size"] assms(1) step_bounds by (simp add: is_float64_def)
  show "rnd (p + step_size) \<le> r"
    using rnd_mono [OF gap] assms(2) by (simp add: is_float64_def)
  show "\<bar>rnd (p + step_size) - (p + step_size)\<bar> \<le> 1 / 2 ^ 53"
    using gap assms(3,4) step_bounds by (intro rnd_err_small) simp
qed

lemma move_down:
  assumes "is_float64 p" "is_float64 r" "0 \<le> r" "p \<le> 1" "step_size < rnd (p - r)"
  shows "rnd (p - step_size) \<le> p" "r \<le> rnd (p - step_size)" "\<bar>rnd (p - step_size) - (p - step_size)\<bar> \<le> 1 / 2 ^ 53"
proof -
  have gap: "r \<le> p - step_size"
    using rnd_gt_step [OF assms(5)] by simp
  show "rnd (p - step_size) \<le> p"
    using rnd_mono [of "p - step_size" p] assms(1) step_bounds by (simp add: is_float64_def)
  show "r \<le> rnd (p - step_size)"
    using rnd_mono [OF gap] assms(2) by (simp add: is_float64_def)
  show "\<bar>rnd (p - step_size) - (p - step_size)\<bar> \<le> 1 / 2 ^ 53"
    using gap assms(3,4) step_bounds by (intro rnd_err_small) simp
qed

lemma step_upper: "step_size + 1 / 2 ^ 53 \<le> 1 / 20 + 1 / 2 ^ 52"
  by (simp add: step_val)

lemma volumeDisplayed_mirror:
  assumes "0 \<le> p" "p \<le> 1"
  shows "\<bar>(volumeDisplayed p r - p) + (volumeDisplayed p (2 * p - r) - p)\<bar> \<le> 1 / 2 ^ 52"
proof -
  have eu: "\<bar>rnd (p + step_size) - (p + step_size)\<bar> \<le> 1 / 2 ^ 53"
    using assms step_bounds by (intro rnd_err_small) simp
  have ed: "\<bar>rnd (p - step_size) - (p - step_size)\<bar> \<le> 1 / 2 ^ 53"
    using assms step_bounds by (intro rnd_err_small) simp
  have "(1 / 2 ^ 53 :: real) + 1 / 2 ^ 53 = 1 / 2 ^ 52"
    by simp
  then have moved: "\<bar>(rnd (p + step_size) - p) + (rnd (p - step_size) - p)\<bar> \<le> 1 / 2 ^ 52"
    using eu ed by linarith
  consider "p < r" | "r < p" | "r = p" by linarith
  then show ?thesis
  proof cases
    case 1
    then have m: "2 * p - r \<le> p" "p - (2 * p - r) = r - p"
      by simp_all
    show ?thesis
    proof (cases "step_size < rnd (r - p)")
      case True
      then have "volumeDisplayed p r = rnd (p + step_size)"
        "volumeDisplayed p (2 * p - r) = rnd (p - step_size)"
        using 1 m by (simp_all add: volumeDisplayed_up volumeDisplayed_down)
      then show ?thesis
        using moved by simp
    next
      case False
      then have "volumeDisplayed p r = r" "volumeDisplayed p (2 * p - r) = 2 * p - r"
        using 1 m by (simp_all add: volumeDisplayed_up volumeDisplayed_down)
      then show ?thesis
        by simp
    qed
  next
    case 2
    then have m: "p < 2 * p - r" "2 * p - r - p = p - r"
      by simp_all
    show ?thesis
    proof (cases "step_size < rnd (p - r)")
      case True
      then have "volumeDisplayed p r = rnd (p - step_size)"
        "volumeDisplayed p (2 * p - r) = rnd (p + step_size)"
        using 2 m by (simp_all add: volumeDisplayed_up volumeDisplayed_down)
      then show ?thesis
        using moved by (simp add: add.commute)
    next
      case False
      then have "volumeDisplayed p r = r" "volumeDisplayed p (2 * p - r) = 2 * p - r"
        using 2 m by (simp_all add: volumeDisplayed_up volumeDisplayed_down)
      then show ?thesis
        by simp
    qed
  next
    case 3
    then show ?thesis
      by (simp add: volumeDisplayed_same)
  qed
qed

text \<open>
  Claim C5, as the code has it. For float64 values \<open>p\<close> (previous displayed volume) and \<open>r\<close> (raw
  volume) between 0 and 1, one invocation of the throttle yields a value between \<open>p\<close> and \<open>r\<close>
  (no overshoot); it differs from \<open>p\<close> by at most the step 0.05 up to the rounding of float64
  arithmetic, namely by at most \<open>1 / 20 + 1 / 2 ^ 52\<close>; rising and falling volume are treated
  alike up to that rounding: the change towards \<open>r\<close> and the change towards the mirror image
  \<open>2 * p - r\<close> of \<open>r\<close> about \<open>p\<close> cancel each other up to \<open>1 / 2 ^ 52\<close> (exactly when both snap),
  and negating both arguments negates the result; when the gap is within the step the result is
  exactly \<open>r\<close>; and when \<open>p\<close> equals \<open>r\<close> the result is \<open>p\<close>.
\<close>

theorem volumeDisplayed_bounded_step:
  assumes "is_float64 p" "is_float64 r" "0 \<le> p" "p \<le> 1" "0 \<le> r" "r \<le> 1"
  shows "min p r \<le> volumeDisplayed p r \<and> volumeDisplayed p r \<le> max p r
       \<and> \<bar>volumeDisplayed p r - p\<bar> \<le> 1 / 20 + 1 / 2 ^ 52
       \<and> \<bar>(volumeDisplayed p r - p) + (volumeDisplayed p (2 * p - r) - p)\<bar> \<le> 1 / 2 ^ 52
       \<and> volumeDisplayed (- p) (- r) = - volumeDisplayed p r
       \<and> (\<bar>r - p\<bar> \<le> step_size \<longrightarrow> volumeDisplayed p r = r)
       \<and> volumeDisplayed p p = p"
proof -
  have between: "min p r \<le> volumeDisplayed p r \<and> volumeDisplayed p r \<le> max p r"
  proof (cases "p < r")
    case True
    then show ?thesis
      using move_up(1,2) [OF assms(1,2,3,6)] by (simp add: volumeDisplayed_up)
  next
    case False
    then show ?thesis
      using move_down(1,2) [OF assms(1,2,5,4)] by (simp add: volumeDisplayed_down)
  qed
  have change: "\<bar>volumeDisplayed p r - p\<bar> \<le> step_size + 1 / 2 ^ 53"
  proof (cases "p < r")
    case up: True
    show ?thesis
    proof (cases "step_size < rnd (r - p)")
      case True
      then have "volumeDisplayed p r = rnd (p + step_size)"
        using up by (simp add: volumeDisplayed_up)
      then show ?thesis
        using move_up(1,3) [OF assms(1,2,3,6) True] by linarith
    next
      case False
      then have "r - p \<le> step_size + 1 / 2 ^ 53"
        using up assms by (intro snap_gap) simp_all
      then show ?thesis
        using up False by (simp add: volumeDisplayed_up)
    qed
  next
    case down: False
    show ?thesis
    proof (cases "step_size < rnd (p - r)")
      case True
      then have "volumeDisplayed p r = rnd (p - step_size)"
        using down by (simp add: volumeDisplayed_down)
      then show ?thesis
        using move_down(1,3) [OF assms(1,2,5,4) True] by linarith
    next
      case False
      then have "p - r \<le> step_size + 1 / 2 ^ 53"
        using down assms by (intro snap_gap) simp_all
      then show ?thesis
        using down False by (simp add: volumeDisplayed_down)
    qed
  qed
  have snap: "volumeDisplayed p r = r" if "\<bar>r - p\<bar> \<le> step_size"
  proof -
    have "\<not> step_size < rnd (r - p)" "\<not> step_size < rnd (p - r)"
      using that rnd_gt_step [of "r - p"] rnd_gt_step [of "p - r"] by auto
    then show ?thesis
      by (simp add: volumeDisplayed_def)
  qed
  have mirror: "\<bar>(volumeDisplayed p r - p) + (volumeDisplayed p (2 * p - r) - p)\<bar> \<le> 1 / 2 ^ 52"
    using assms(3,4) by (rule volumeDisplayed_mirror)
  have bound: "\<bar>volumeDisplayed p r - p\<bar> \<le> 1 / 20 + 1 / 2 ^ 52"
    using change step_upper by linarith
  show ?thesis
    using between bound mirror snap volumeDisplayed_minus [of p r] volumeDisplayed_same [of p]
    by blast
qed

theorem volumeDisplayed_bounded_step_witness:
  "is_float64 (1 / 2) \<and> is_float64 1 \<and> (0::real) \<le> 1 / 2 \<and> (1 / 2 :: real) \<le> 1
   \<and> min (1 / 2) 1 \<le> volumeDisplayed (1 / 2) 1 \<and> volumeDisplayed (1 / 2) 1 \<le> max (1 / 2) 1
   \<and> \<bar>volumeDisplayed (1 / 2) 1 - 1 / 2\<bar> \<le> 1 / 20 + 1 / 2 ^ 52
   \<and> \<bar>(volumeDisplayed (1 / 2) 1 - 1 / 2) + (volumeDisplayed (1 / 2) (2 * (1 / 2) - 1) - 1 / 2)\<bar>
       \<le> 1 / 2 ^ 52"
proof -
  have h: "(0::real) \<le> 1 / 2" "(1 / 2 :: real) \<le> 1" "(0::real) \<le> 1" "(1::real) \<le> 1"
    by simp_all
  show ?thesis
    using volumeDisplayed_bounded_step [OF is_float64_half is_float64_1 h] is_float64_half
      is_float64_1 h by blast
qed

lemma volumeDisplayed_half_1: "volumeDisplayed (1 / 2) 1 = 4953959590107546 / 2 ^ 53"
proof -
  have "rnd (1 - 1 / 2) = 1 / 2"
    using is_float64_half by (simp add: is_float64_def)
  then have a: "volumeDisplayed (1 / 2) 1 = rnd (1 / 2 + step_size)"
    using step_bounds by (simp add: volumeDisplayed_def)
  have x: "1 / 2 + step_size = (39631676720860365 / 2 ^ 56 :: real)"
    by (simp add: step_val)
  have "rnd (39631676720860365 / 2 ^ 56) =
      of_int (rhe ((39631676720860365 / 2 ^ 56) / 2 powi (- 1 - 52))) * 2 powi (- 1 - 52)"
    by (rule rnd_eval) (simp_all add: power_int_minus_divide)
  moreover have "(39631676720860365 / 2 ^ 56) / 2 powi (- 1 - 52) = (4953959590107545 + 5 / 8 :: real)"
    by (simp add: power_int_minus_divide)
  moreover have "rhe (4953959590107545 + 5 / 8) = 4953959590107546"
    by (simp add: rhe_def Let_def)
  ultimately have "rnd (39631676720860365 / 2 ^ 56) = 4953959590107546 / 2 ^ 53"
    by (simp add: power_int_minus_divide)
  then show ?thesis
    by (simp only: a x)
qed

lemma volumeDisplayed_half_0: "volumeDisplayed (1 / 2) 0 = 8106479329266893 / 2 ^ 54"
proof -
  have "rnd (1 / 2 - 0) = 1 / 2"
    using is_float64_half by (simp add: is_float64_def)
  then have a: "volumeDisplayed (1 / 2) 0 = rnd (1 / 2 - step_size)"
    using step_bounds by (simp add: volumeDisplayed_def)
  have x: "1 / 2 - step_size = (32425917317067571 / 2 ^ 56 :: real)"
    by (simp add: step_val)
  have "rnd (32425917317067571 / 2 ^ 56) =
      of_int (rhe ((32425917317067571 / 2 ^ 56) / 2 powi (- 2 - 52))) * 2 powi (- 2 - 52)"
    by (rule rnd_eval) (simp_all add: power_int_minus_divide)
  moreover have "(32425917317067571 / 2 ^ 56) / 2 powi (- 2 - 52) = (8106479329266892 + 3 / 4 :: real)"
    by (simp add: power_int_minus_divide)
  moreover have "rhe (8106479329266892 + 3 / 4) = 8106479329266893"
    by (simp add: rhe_def Let_def)
  ultimately have "rnd (32425917317067571 / 2 ^ 56) = 8106479329266893 / 2 ^ 54"
    by (simp add: power_int_minus_divide)
  then show ?thesis
    by (simp only: a x)
qed

lemma volumeDisplayed_loud:
  assumes "0 \<le> p" "p \<le> 1 / 2"
  shows "volumeDisplayed p 1 = rnd (p + step_size)"
proof -
  have "1 / 2 \<le> rnd (1 - p)"
    using rnd_mono [of "1 / 2" "1 - p"] assms is_float64_half by (simp add: is_float64_def)
  then have "step_size < rnd (1 - p)"
    using step_bounds by linarith
  then show ?thesis
    using assms by (simp add: volumeDisplayed_def)
qed

lemma Data_loud_1: "Data 0 [255] = step_size"
proof -
  have "Data 0 [255] = volumeDisplayed 0 1"
    using volume_clip [of 255] by (simp add: Data_def peak_def)
  then show ?thesis
    using volumeDisplayed_loud [of 0] by (simp add: rnd_step)
qed

lemma Data_loud_2: "Data step_size [255] = 2 * step_size"
proof -
  have "Data step_size [255] = volumeDisplayed step_size 1"
    using volume_clip [of 255] by (simp add: Data_def peak_def)
  also have "\<dots> = rnd (step_size + step_size)"
    using step_bounds by (intro volumeDisplayed_loud) simp_all
  also have "step_size + step_size = of_int 3602879701896397 * 2 powi (- 55)"
    by (simp add: step_val power_int_minus_divide)
  also have "rnd (of_int 3602879701896397 * 2 powi (- 55)) = of_int 3602879701896397 * 2 powi (- 55)"
    by (rule rnd_repr) simp_all
  also have "\<dots> = 2 * step_size"
    by (simp add: step_val power_int_minus_divide)
  finally show ?thesis .
qed

lemma Data_loud_3: "Data (2 * step_size) [255] = 5404319552844596 / 2 ^ 55"
proof -
  have "Data (2 * step_size) [255] = volumeDisplayed (2 * step_size) 1"
    using volume_clip [of 255] by (simp add: Data_def peak_def)
  also have "\<dots> = rnd (2 * step_size + step_size)"
    using step_bounds by (intro volumeDisplayed_loud) simp_all
  also have "2 * step_size + step_size = (10808639105689191 / 2 ^ 56 :: real)"
    by (simp add: step_val)
  also have "rnd (10808639105689191 / 2 ^ 56) =
      of_int (rhe ((10808639105689191 / 2 ^ 56) / 2 powi (- 3 - 52))) * 2 powi (- 3 - 52)"
    by (rule rnd_eval) (simp_all add: power_int_minus_divide)
  also have "(10808639105689191 / 2 ^ 56) / 2 powi (- 3 - 52) = (5404319552844595 + 1 / 2 :: real)"
    by (simp add: power_int_minus_divide)
  also have "rhe (5404319552844595 + 1 / 2) = 5404319552844596"
    by (simp add: rhe_def Let_def)
  finally show ?thesis
    by (simp add: power_int_minus_divide)
qed




text \<open>
  The bound of claim C5 without the rounding term does not hold. From the previous value 0.5
  towards the raw volume 1.0 the code computes \<^verbatim>\<open>0.5 + 0.05\<close> in float64, which is
  \<open>4953959590107546 / 2 ^ 53\<close> (0.5500000000000000444...); the change,
  0.0500000000000000444..., exceeds both the float64 constant 0.05
  (\<open>3602879701896397 / 2 ^ 56\<close>, 0.0500000000000000027...) and the real number 1/20. The same
  happens in a run from the start: after two periods with the peak 255 the displayed volume is
  twice the constant (the float64 0.1), and the third such period moves it to
  0.1500000000000000222..., by more than the constant. Nor are rises and falls exactly
  symmetric between 0 and 1: from 0.5 the step up (towards 1.0) is \<open>900719925474100 / 2 ^ 54\<close> and
  the step down (towards 0.0) is \<open>900719925474099 / 2 ^ 54\<close>.
\<close>

theorem volumeDisplayed_exceeds_step:
  "is_float64 (1 / 2) \<and> is_float64 1
   \<and> \<not> \<bar>volumeDisplayed (1 / 2) 1 - 1 / 2\<bar> \<le> step_size
   \<and> \<not> \<bar>volumeDisplayed (1 / 2) 1 - 1 / 2\<bar> \<le> 1 / 20
   \<and> foldl Data 0 [[255], [255]] = 2 * step_size
   \<and> \<not> \<bar>Data (2 * step_size) [255] - 2 * step_size\<bar> \<le> step_size
   \<and> is_float64 0
   \<and> volumeDisplayed (1 / 2) 1 - 1 / 2 = 900719925474100 / 2 ^ 54
   \<and> 1 / 2 - volumeDisplayed (1 / 2) 0 = 900719925474099 / 2 ^ 54
   \<and> volumeDisplayed (1 / 2) 1 - 1 / 2 \<noteq> 1 / 2 - volumeDisplayed (1 / 2) 0"
proof -
  have "foldl Data 0 [[255], [255]] = 2 * step_size"
    by (simp add: Data_loud_1 Data_loud_2)
  moreover have "\<not> \<bar>Data (2 * step_size) [255] - 2 * step_size\<bar> \<le> step_size"
    unfolding Data_loud_3 by (simp add: step_val)
  ultimately show ?thesis
    by (simp add: volumeDisplayed_half_1 volumeDisplayed_half_0 step_val is_float64_half
        is_float64_1 is_float64_0)
qed

lemma step_progress: "1 / 25 + 1 / 2 ^ 53 \<le> step_size"
  by (simp add: step_val)

lemma approach_up:
  assumes "is_float64 r" "0 \<le> p" "r \<le> 1" "step_size < rnd (r - p)"
  shows "rnd (p + step_size) \<le> r" "p + 1 / 25 \<le> rnd (p + step_size)"
proof -
  have gap: "p + step_size \<le> r"
    using rnd_gt_step [OF assms(4)] by simp
  show "rnd (p + step_size) \<le> r"
    using rnd_mono [OF gap] assms(1) by (simp add: is_float64_def)
  have "\<bar>rnd (p + step_size) - (p + step_size)\<bar> \<le> 1 / 2 ^ 53"
    using gap assms(2,3) step_bounds by (intro rnd_err_small) simp
  then show "p + 1 / 25 \<le> rnd (p + step_size)"
    using step_progress by linarith
qed

lemma approach_down:
  assumes "is_float64 r" "0 \<le> r" "p \<le> 1" "step_size < rnd (p - r)"
  shows "r \<le> rnd (p - step_size)" "rnd (p - step_size) \<le> p - 1 / 25"
proof -
  have gap: "r \<le> p - step_size"
    using rnd_gt_step [OF assms(4)] by simp
  show "r \<le> rnd (p - step_size)"
    using rnd_mono [OF gap] assms(1) by (simp add: is_float64_def)
  have "\<bar>rnd (p - step_size) - (p - step_size)\<bar> \<le> 1 / 2 ^ 53"
    using gap assms(2,3) step_bounds by (intro rnd_err_small) simp
  then show "rnd (p - step_size) \<le> p - 1 / 25"
    using step_progress by linarith
qed

lemma volumeDisplayed_progress:
  assumes "is_float64 r" "0 \<le> p" "p \<le> 1" "0 \<le> r" "r \<le> 1"
  shows "volumeDisplayed p r = r \<or> \<bar>r - volumeDisplayed p r\<bar> \<le> \<bar>r - p\<bar> - 1 / 25"
proof (cases "p < r")
  case up: True
  show ?thesis
  proof (cases "step_size < rnd (r - p)")
    case True
    then have "volumeDisplayed p r = rnd (p + step_size)"
      using up by (simp add: volumeDisplayed_up)
    then show ?thesis
      using approach_up [OF assms(1,2,5) True] up by linarith
  next
    case False
    then show ?thesis
      using up by (simp add: volumeDisplayed_up)
  qed
next
  case down: False
  show ?thesis
  proof (cases "step_size < rnd (p - r)")
    case True
    then have "volumeDisplayed p r = rnd (p - step_size)"
      using down by (simp add: volumeDisplayed_down)
    then show ?thesis
      using approach_down [OF assms(1,4,3) True] down by linarith
  next
    case False
    then show ?thesis
      using down by (simp add: volumeDisplayed_down)
  qed
qed

lemma held_fixed: "foldl volumeDisplayed r (replicate n r) = r"
  by (induction n) (simp_all add: volumeDisplayed_same)

lemma held_converges:
  assumes "is_float64 r" "0 \<le> r" "r \<le> 1"
  shows "0 \<le> p \<Longrightarrow> p \<le> 1 \<Longrightarrow> \<bar>r - p\<bar> \<le> real n / 25
    \<Longrightarrow> foldl volumeDisplayed p (replicate n r) = r"
proof (induction n arbitrary: p)
  case 0
  then show ?case by simp
next
  case (Suc n)
  define p' where "p' = volumeDisplayed p r"
  have range: "0 \<le> p'" "p' \<le> 1"
    using volumeDisplayed_range [OF Suc.prems(1,2) assms(2,3)] by (simp_all add: p'_def)
  have "p' = r \<or> \<bar>r - p'\<bar> \<le> \<bar>r - p\<bar> - 1 / 25"
    unfolding p'_def by (rule volumeDisplayed_progress [OF assms(1) Suc.prems(1,2) assms(2,3)])
  then show ?case
  proof
    assume "p' = r"
    then show ?thesis
      by (simp add: p'_def [symmetric] held_fixed)
  next
    assume "\<bar>r - p'\<bar> \<le> \<bar>r - p\<bar> - 1 / 25"
    then have "\<bar>r - p'\<bar> \<le> real n / 25"
      using Suc.prems(3) by (simp add: field_simps)
    then have "foldl volumeDisplayed p' (replicate n r) = r"
      using range by (intro Suc.IH)
    then show ?thesis
      by (simp add: p'_def [symmetric])
  qed
qed

text \<open>
  Claim C6. When the raw volume is held at a float64 value \<open>r\<close> between 0 and 1, the displayed
  volume, from any start between 0 and 1, is exactly \<open>r\<close> after at most 25 invocations and stays
  there; in particular from 0.0 with the raw volume 1.0 it becomes exactly 1.0.
\<close>

theorem held_volume_reached:
  assumes "is_float64 r" "0 \<le> r" "r \<le> 1" "0 \<le> p" "p \<le> 1" "25 \<le> n"
  shows "foldl volumeDisplayed p (replicate n r) = r"
proof -
  have "\<bar>r - p\<bar> \<le> 1"
    using assms by (simp add: abs_le_iff)
  also have "1 \<le> real n / 25"
    using assms(6) by simp
  finally show ?thesis
    using assms by (intro held_converges)
qed

theorem held_volume_reached_witness:
  "is_float64 1 \<and> (0::real) \<le> 1 \<and> (25::nat) \<le> 25 \<and> foldl volumeDisplayed 0 (replicate 25 1) = 1"
proof -
  have "foldl volumeDisplayed 0 (replicate 25 1) = 1"
    by (rule held_volume_reached [OF is_float64_1]) simp_all
  then show ?thesis
    using is_float64_1 by simp
qed

lemma is_float64_of_int: "\<bar>n\<bar> < 2 ^ 53 \<Longrightarrow> is_float64 (of_int n)"
  by (simp add: is_float64_def rnd_of_int)







section \<open>Properties of the clipping indicator\<close>









section \<open>Properties of the shutdown\<close>

lemma main_inv_launched: "main_inv launched"
  by (simp add: main_inv_def launched_def)

lemma main_inv_step:
  assumes "step runErr False s s'" "main_inv s"
  shows "main_inv s'"
  using assms by (induction rule: step.induct) (auto simp: main_inv_def)

lemma main_inv_reach:
  assumes "reach runErr False launched s"
  shows "main_inv s"
  using assms by (induction rule: reach.induct) (auto intro: main_inv_launched main_inv_step)

lemma progressI:
  assumes "step runErr False s s'" "rank s' < rank s"
  shows "\<exists>s'. step runErr False s s' \<and> rank s' < rank s"
  using assms by blast

lemma progress:
  assumes "main_inv s" "status s = None"
  shows "\<exists>s'. step runErr False s s' \<and> rank s' < rank s"
proof (cases "main s")
  case AtStart
  then have "step runErr False s (s\<lparr>main := AtReceive, trace := trace s @ [DeviceStart]\<rparr>)"
    using assms(2) by (intro start_ok) simp_all
  moreover have "rank (s\<lparr>main := AtReceive, trace := trace s @ [DeviceStart]\<rparr>) < rank s"
    using AtStart by (simp add: rank_def)
  ultimately show ?thesis
    by (rule progressI)
next
  case AtReceive
  show ?thesis
  proof (cases "done_chan s")
    case (Cons sg rest)
    then have "step runErr False s (s\<lparr>main := AtUninit, done_chan := rest\<rparr>)"
      using assms(2) AtReceive by (intro receive) simp_all
    moreover have "rank (s\<lparr>main := AtUninit, done_chan := rest\<rparr>) < rank s"
      using AtReceive by (simp add: rank_def)
    ultimately show ?thesis
      by (rule progressI)
  next
    case Nil
    then have nr: "ui s \<noteq> Returned"
      using assms(1) AtReceive by (auto simp: main_inv_def)
    show ?thesis
    proof (cases "ui s")
      case InRun
      show ?thesis
      proof (cases runErr)
        case True
        then have "step runErr False s (s\<lparr>ui := AtPrintf\<rparr>)"
          using assms(2) InRun by (intro run_err) simp_all
        moreover have "rank (s\<lparr>ui := AtPrintf\<rparr>) < rank s"
          using InRun by (simp add: rank_def)
        ultimately show ?thesis
          by (rule progressI)
      next
        case False
        then have "step runErr False s (s\<lparr>ui := AtSend\<rparr>)"
          using assms(2) InRun by (intro run_nil) simp_all
        moreover have "rank (s\<lparr>ui := AtSend\<rparr>) < rank s"
          using InRun by (simp add: rank_def)
        ultimately show ?thesis
          by (rule progressI)
      qed
    next
      case AtPrintf
      then have "step runErr False s (s\<lparr>ui := AtSend, trace := trace s @ [LogPrintf]\<rparr>)"
        using assms(2) by (intro printf) simp_all
      moreover have "rank (s\<lparr>ui := AtSend, trace := trace s @ [LogPrintf]\<rparr>) < rank s"
        using AtPrintf by (simp add: rank_def)
      ultimately show ?thesis
        by (rule progressI)
    next
      case AtSend
      then have "step runErr False s (s\<lparr>ui := Returned, done_chan := [SIGTERM]\<rparr>)"
        using assms(2) Nil by (intro send) simp_all
      moreover have "rank (s\<lparr>ui := Returned, done_chan := [SIGTERM]\<rparr>) < rank s"
        using AtSend by (simp add: rank_def)
      ultimately show ?thesis
        by (rule progressI)
    next
      case Returned
      then show ?thesis using nr by simp
    qed
  qed
next
  case AtUninit
  then have "step runErr False s (s\<lparr>main := AtStop, trace := trace s @ [DeviceUninit]\<rparr>)"
    using assms(2) by (intro uninit) simp_all
  moreover have "rank (s\<lparr>main := AtStop, trace := trace s @ [DeviceUninit]\<rparr>) < rank s"
    using AtUninit by (simp add: rank_def)
  ultimately show ?thesis
    by (rule progressI)
next
  case AtStop
  then have "step runErr False s (s\<lparr>main := AtExit, trace := trace s @ [AppStop]\<rparr>)"
    using assms(2) by (intro stop) simp_all
  moreover have "rank (s\<lparr>main := AtExit, trace := trace s @ [AppStop]\<rparr>) < rank s"
    using AtStop by (simp add: rank_def)
  ultimately show ?thesis
    by (rule progressI)
next
  case AtExit
  then have "step runErr False s (s\<lparr>main := Exited, trace := trace s @ [OsExit 0], status := Some 0\<rparr>)"
    using assms(2) by (intro exit) simp_all
  moreover have "rank (s\<lparr>main := Exited, trace := trace s @ [OsExit 0], status := Some 0\<rparr>) < rank s"
    using AtExit by (simp add: rank_def)
  ultimately show ?thesis
    by (rule progressI)
next
  case Exited
  then show ?thesis
    using assms by (simp add: main_inv_def)
qed

lemma step_reach:
  assumes "reach runErr startErr s1 s2" "step runErr startErr s s1"
  shows "reach runErr startErr s s2"
  using assms
proof (induction rule: reach.induct)
  case reach_refl
  show ?case
    using reach.reach_refl reach_refl.prems by (rule reach.reach_step)
next
  case (reach_step s2 s3)
  then show ?case
    by (auto intro: reach.reach_step)
qed

lemma reach_trans:
  assumes "reach runErr startErr s1 s2" "reach runErr startErr s0 s1"
  shows "reach runErr startErr s0 s2"
  using assms by (induction rule: reach.induct) (auto intro: reach.reach_step)

lemma exits:
  assumes "main_inv s"
  shows "\<exists>s'. reach runErr False s s' \<and> status s' = Some 0"
  using assms
proof (induction "rank s" arbitrary: s rule: less_induct)
  case less
  show ?case
  proof (cases "status s")
    case (Some c)
    then have "status s = Some 0"
      using less.prems by (auto simp: main_inv_def split: if_splits)
    then show ?thesis
      using reach_refl [of runErr False s] by blast
  next
    case None
    then obtain s1 where s1: "step runErr False s s1" "rank s1 < rank s"
      using progress [OF less.prems] by blast
    have "main_inv s1"
      using s1(1) less.prems by (rule main_inv_step)
    then obtain s' where "reach runErr False s1 s'" "status s' = Some 0"
      using less.hyps [OF s1(2)] by blast
    then show ?thesis
      using step_reach [OF _ s1(1)] by blast
  qed
qed

lemma logged_inv_launched: "logged_inv launched"
  by (simp add: logged_inv_def launched_def)

lemma quiet_trace_append: "quiet_trace (tr @ [a]) \<longleftrightarrow> quiet_trace tr \<and> (\<forall>sg. a \<noteq> Notify sg)"
  by (auto simp: quiet_trace_def)

lemma logged_inv_step:
  assumes "step True False s s'" "logged_inv s"
  shows "logged_inv s'"
  using assms
  by (induction rule: step.induct) (auto simp: logged_inv_def quiet_trace_append split: if_splits)

lemma logged_inv_reach:
  assumes "reach True False launched s"
  shows "logged_inv s"
  using assms by (induction rule: reach.induct) (auto intro: logged_inv_launched logged_inv_step)

lemma exited_trace:
  assumes "main_inv s" "status s = Some c"
  shows "c = 0 \<and> filter by_main (trace s) = [DeviceStart, DeviceUninit, AppStop, OsExit 0]"
proof -
  have "main s = Exited"
    using assms by (auto simp: main_inv_def split: if_splits)
  then show ?thesis
    using assms by (auto simp: main_inv_def)
qed

lemma exited_quiet_trace:
  assumes "main_inv s" "logged_inv s" "status s = Some c" "quiet_trace (trace s)"
  shows "trace s = [DeviceStart, LogPrintf, DeviceUninit, AppStop, OsExit 0]
       \<or> trace s = [LogPrintf, DeviceStart, DeviceUninit, AppStop, OsExit 0]"
proof -
  have "main s = Exited"
    using assms(1,3) by (auto simp: main_inv_def split: if_splits)
  then show ?thesis
    using assms(2,4) by (auto simp: logged_inv_def split: if_splits)
qed

lemma step_rank:
  assumes "step runErr startErr s s'"
  shows "rank s' \<le> rank s"
  using assms by (induction rule: step.induct) (simp_all add: rank_def)

lemma reach_rank:
  assumes "reach runErr startErr s0 s"
  shows "rank s \<le> rank s0"
  using assms
proof (induction rule: reach.induct)
  case reach_refl
  show ?case by simp
next
  case (reach_step s s')
  then show ?case
    using step_rank [of runErr startErr s s'] by simp
qed

lemma rank_launched: "rank launched = 8"
  by (simp add: rank_def launched_def)

lemma past_printf_step:
  assumes "step True startErr s s'" "ui s = AtSend \<or> ui s = Returned \<longrightarrow> LogPrintf \<in> set (trace s)"
  shows "ui s' = AtSend \<or> ui s' = Returned \<longrightarrow> LogPrintf \<in> set (trace s')"
  using assms by (induction rule: step.induct) auto

lemma past_printf_reach:
  assumes "reach True startErr launched s"
  shows "ui s = AtSend \<or> ui s = Returned \<longrightarrow> LogPrintf \<in> set (trace s)"
  using assms
proof (induction rule: reach.induct)
  case reach_refl
  show ?case by (simp add: launched_def)
next
  case (reach_step s s')
  then show ?case
    using past_printf_step [of startErr s s'] by blast
qed

lemma start_failed_reach:
  "reach True True launched
     \<lparr>main = Exited, ui = AtPrintf, done_chan = [],
      trace = [DeviceStart, LogFatalf, OsExit 1], status = Some 1\<rparr>"
proof -
  let ?s1 = "\<lparr>main = AtStart, ui = AtPrintf, done_chan = [], trace = [], status = None\<rparr>"
  have "step True True launched ?s1"
    using run_err [of launched True True] by (simp add: launched_def)
  then have r1: "reach True True launched ?s1"
    by (rule reach_step [OF reach_refl])
  have "step True True ?s1 \<lparr>main = Exited, ui = AtPrintf, done_chan = [],
      trace = [DeviceStart, LogFatalf, OsExit 1], status = Some 1\<rparr>"
    using start_err [of ?s1 True True] by simp
  then show ?thesis
    by (rule reach_step [OF r1])
qed

lemma unlogged_run_reach:
  "reach True False launched
     \<lparr>main = Exited, ui = AtPrintf, done_chan = [],
      trace = [DeviceStart, Notify SIGINT, DeviceUninit, AppStop, OsExit 0], status = Some 0\<rparr>"
proof -
  let ?s1 = "\<lparr>main = AtReceive, ui = InRun, done_chan = [], trace = [DeviceStart], status = None\<rparr>"
  let ?s2 = "\<lparr>main = AtReceive, ui = AtPrintf, done_chan = [], trace = [DeviceStart], status = None\<rparr>"
  let ?s3 = "\<lparr>main = AtReceive, ui = AtPrintf, done_chan = [SIGINT],
    trace = [DeviceStart, Notify SIGINT], status = None\<rparr>"
  let ?s4 = "\<lparr>main = AtUninit, ui = AtPrintf, done_chan = [],
    trace = [DeviceStart, Notify SIGINT], status = None\<rparr>"
  let ?s5 = "\<lparr>main = AtStop, ui = AtPrintf, done_chan = [],
    trace = [DeviceStart, Notify SIGINT, DeviceUninit], status = None\<rparr>"
  let ?s6 = "\<lparr>main = AtExit, ui = AtPrintf, done_chan = [],
    trace = [DeviceStart, Notify SIGINT, DeviceUninit, AppStop], status = None\<rparr>"
  have "step True False launched ?s1"
    using start_ok [of launched False True] by (simp add: launched_def)
  then have r1: "reach True False launched ?s1"
    by (rule reach_step [OF reach_refl])
  have "step True False ?s1 ?s2"
    using run_err [of ?s1 True False] by simp
  then have r2: "reach True False launched ?s2"
    by (rule reach_step [OF r1])
  have "step True False ?s2 ?s3"
    using notify [of ?s2 True False SIGINT] by simp
  then have r3: "reach True False launched ?s3"
    by (rule reach_step [OF r2])
  have "step True False ?s3 ?s4"
    using receive [of ?s3 SIGINT "[]" True False] by simp
  then have r4: "reach True False launched ?s4"
    by (rule reach_step [OF r3])
  have "step True False ?s4 ?s5"
    using uninit [of ?s4 True False] by simp
  then have r5: "reach True False launched ?s5"
    by (rule reach_step [OF r4])
  have "step True False ?s5 ?s6"
    using stop [of ?s5 True False] by simp
  then have r6: "reach True False launched ?s6"
    by (rule reach_step [OF r5])
  have "step True False ?s6 \<lparr>main = Exited, ui = AtPrintf, done_chan = [],
      trace = [DeviceStart, Notify SIGINT, DeviceUninit, AppStop, OsExit 0], status = Some 0\<rparr>"
    using exit [of ?s6 True False] by simp
  then show ?thesis
    by (rule reach_step [OF r6])
qed

text \<open>
  Claim C9, as the code has it. Let the audio device have started and let the run loop of the
  user interface fail. The process then exits with status 0 by the shutdown path of a
  termination signal. In detail, for every reachable state: while the process has not exited,
  one of its two goroutines can take a step, and every such step lowers a measure that is 8 at
  the launch and that no step raises (the delivery of a signal leaves it unchanged), so a run
  neither stops before the exit nor goes on without end; whenever the process has exited, the
  status is 0 and the main goroutine has made exactly the calls \<^verbatim>\<open>device.Start\<close>,
  \<^verbatim>\<open>device.Uninit\<close>, \<^verbatim>\<open>app.Stop\<close>, \<^verbatim>\<open>os.Exit(0)\<close>, in this order (audio capture is stopped
  before the user interface), which are also its calls when the run loop does not fail and a
  signal or the normal return of the run loop ends the process. The failure is logged
  (\<^verbatim>\<open>log.Printf\<close>) as soon as the goroutine of the user interface has passed the log statement;
  if no signal has arrived, this is before the shutdown begins: the trace at the exit is one of
  two, which differ in the order of the start of the device and the log entry.
\<close>

theorem ui_failure_shutdown:
  assumes "reach True False launched s"
  shows "(status s = None \<longrightarrow> (\<exists>s'. step True False s s' \<and> rank s' < rank s))
       \<and> rank s \<le> 8
       \<and> (\<forall>s'. step True False s s' \<longrightarrow> rank s' \<le> rank s)
       \<and> (\<exists>s'. reach True False s s' \<and> status s' = Some 0)
       \<and> (\<forall>c. status s = Some c \<longrightarrow>
              c = 0 \<and> filter by_main (trace s) = [DeviceStart, DeviceUninit, AppStop, OsExit 0])
       \<and> (ui s = AtSend \<or> ui s = Returned \<longrightarrow> LogPrintf \<in> set (trace s))
       \<and> (\<forall>c. status s = Some c \<and> quiet_trace (trace s) \<longrightarrow>
              trace s = [DeviceStart, LogPrintf, DeviceUninit, AppStop, OsExit 0]
              \<or> trace s = [LogPrintf, DeviceStart, DeviceUninit, AppStop, OsExit 0])
       \<and> (\<forall>t c. reach False False launched t \<and> status t = Some c \<longrightarrow>
              c = 0 \<and> filter by_main (trace t) = [DeviceStart, DeviceUninit, AppStop, OsExit 0])"
proof -
  have m: "main_inv s"
    using assms by (rule main_inv_reach)
  have l: "logged_inv s"
    using assms by (rule logged_inv_reach)
  have p: "\<exists>s'. step True False s s' \<and> rank s' < rank s" if "status s = None"
    using m that by (rule progress)
  have r: "rank s \<le> 8"
    using reach_rank [OF assms] by (simp add: rank_launched)
  have q: "rank s' \<le> rank s" if "step True False s s'" for s'
    using that by (rule step_rank)
  have a: "\<exists>s'. reach True False s s' \<and> status s' = Some 0"
    using m by (rule exits)
  have b: "c = 0 \<and> filter by_main (trace s) = [DeviceStart, DeviceUninit, AppStop, OsExit 0]"
    if "status s = Some c" for c
    using m that by (rule exited_trace)
  have g: "ui s = AtSend \<or> ui s = Returned \<longrightarrow> LogPrintf \<in> set (trace s)"
    using assms by (rule past_printf_reach)
  have c: "trace s = [DeviceStart, LogPrintf, DeviceUninit, AppStop, OsExit 0]
      \<or> trace s = [LogPrintf, DeviceStart, DeviceUninit, AppStop, OsExit 0]"
    if "status s = Some c" "quiet_trace (trace s)" for c
    using m l that by (rule exited_quiet_trace)
  have d: "c = 0 \<and> filter by_main (trace t) = [DeviceStart, DeviceUninit, AppStop, OsExit 0]"
    if "reach False False launched t" "status t = Some c" for t c
    using main_inv_reach [OF that(1)] that(2) by (rule exited_trace)
  show ?thesis
    using p r q a b g c d by blast
qed

lemma failed_run_reach:
  "reach True False launched
     \<lparr>main = Exited, ui = Returned, done_chan = [],
      trace = [DeviceStart, LogPrintf, DeviceUninit, AppStop, OsExit 0], status = Some 0\<rparr>"
proof -
  let ?s1 = "\<lparr>main = AtReceive, ui = InRun, done_chan = [], trace = [DeviceStart], status = None\<rparr>"
  let ?s2 = "\<lparr>main = AtReceive, ui = AtPrintf, done_chan = [], trace = [DeviceStart], status = None\<rparr>"
  let ?s3 = "\<lparr>main = AtReceive, ui = AtSend, done_chan = [], trace = [DeviceStart, LogPrintf],
    status = None\<rparr>"
  let ?s4 = "\<lparr>main = AtReceive, ui = Returned, done_chan = [SIGTERM],
    trace = [DeviceStart, LogPrintf], status = None\<rparr>"
  let ?s5 = "\<lparr>main = AtUninit, ui = Returned, done_chan = [], trace = [DeviceStart, LogPrintf],
    status = None\<rparr>"
  let ?s6 = "\<lparr>main = AtStop, ui = Returned, done_chan = [],
    trace = [DeviceStart, LogPrintf, DeviceUninit], status = None\<rparr>"
  let ?s7 = "\<lparr>main = AtExit, ui = Returned, done_chan = [],
    trace = [DeviceStart, LogPrintf, DeviceUninit, AppStop], status = None\<rparr>"
  have "step True False launched ?s1"
    using start_ok [of launched False True] by (simp add: launched_def)
  then have r1: "reach True False launched ?s1"
    by (rule reach_step [OF reach_refl])
  have "step True False ?s1 ?s2"
    using run_err [of ?s1 True False] by simp
  then have r2: "reach True False launched ?s2"
    by (rule reach_step [OF r1])
  have "step True False ?s2 ?s3"
    using printf [of ?s2 True False] by simp
  then have r3: "reach True False launched ?s3"
    by (rule reach_step [OF r2])
  have "step True False ?s3 ?s4"
    using send [of ?s3 True False] by simp
  then have r4: "reach True False launched ?s4"
    by (rule reach_step [OF r3])
  have "step True False ?s4 ?s5"
    using receive [of ?s4 SIGTERM "[]" True False] by simp
  then have r5: "reach True False launched ?s5"
    by (rule reach_step [OF r4])
  have "step True False ?s5 ?s6"
    using uninit [of ?s5 True False] by simp
  then have r6: "reach True False launched ?s6"
    by (rule reach_step [OF r5])
  have "step True False ?s6 ?s7"
    using stop [of ?s6 True False] by simp
  then have r7: "reach True False launched ?s7"
    by (rule reach_step [OF r6])
  have "step True False ?s7 \<lparr>main = Exited, ui = Returned, done_chan = [],
      trace = [DeviceStart, LogPrintf, DeviceUninit, AppStop, OsExit 0], status = Some 0\<rparr>"
    using exit [of ?s7 True False] by simp
  then show ?thesis
    by (rule reach_step [OF r7])
qed

theorem ui_failure_shutdown_witness:
  "reach True False launched
     \<lparr>main = Exited, ui = Returned, done_chan = [],
      trace = [DeviceStart, LogPrintf, DeviceUninit, AppStop, OsExit 0], status = Some 0\<rparr>
   \<and> quiet_trace [DeviceStart, LogPrintf, DeviceUninit, AppStop, OsExit 0]
   \<and> filter by_main [DeviceStart, LogPrintf, DeviceUninit, AppStop, OsExit 0]
       = [DeviceStart, DeviceUninit, AppStop, OsExit 0]
   \<and> (\<exists>s'. reach True False launched s' \<and> status s' = Some 0)"
  using ui_failure_shutdown [OF failed_run_reach] ui_failure_shutdown [OF reach_refl]
    failed_run_reach
  by (simp add: quiet_trace_def)

text \<open>
  Claim C9 as stated, without these conditions, does not hold. When the run loop has failed and
  \<^verbatim>\<open>device.Start\<close> fails as well, \<^verbatim>\<open>log.Fatalf\<close> ends the process with status 1. When the run
  loop has failed and a signal arrives before the goroutine of the user interface reaches
  \<^verbatim>\<open>log.Printf\<close>, the main goroutine shuts down and exits with status 0 while the failure has not
  been logged.
\<close>

theorem ui_failure_not_always_logged:
  "reach True True launched
     \<lparr>main = Exited, ui = AtPrintf, done_chan = [],
      trace = [DeviceStart, LogFatalf, OsExit 1], status = Some 1\<rparr>
   \<and> reach True False launched
     \<lparr>main = Exited, ui = AtPrintf, done_chan = [],
      trace = [DeviceStart, Notify SIGINT, DeviceUninit, AppStop, OsExit 0], status = Some 0\<rparr>
   \<and> LogPrintf \<notin> set [DeviceStart, Notify SIGINT, DeviceUninit, AppStop, OsExit 0]
   \<and> LogPrintf \<notin> set [DeviceStart, LogFatalf, OsExit 1]"
  using start_failed_reach unlogged_run_reach by simp

end
